theory Spec2Isabelle
  imports Complex_Main
begin

section \<open>ContractableBOSS: ensemble construction and selection\<close>

text \<open>
  A shallow embedding of \<^verbatim>\<open>sktime/classification/dictionary_based/_cboss.py\<close>.
  Python floats are idealised as exact rationals (\<^typ>\<open>rat\<close>), so \<^verbatim>\<open>math.pow\<close>, the
  products and the quotients are exact; every exception the source can raise is a value
  of \<open>error\<close>; a NumPy division, which yields a non-finite value instead of raising,
  returns that value. The base learner, the random generator and the wall clock are
  parameters of the model. The options \<^verbatim>\<open>random_state=None\<close> and
  \<^verbatim>\<open>max_ensemble_size=None\<close> are left out: both attributes are integers here.
\<close>

subsection \<open>Python values\<close>

datatype error = ValueError | ZeroDivisionError | IndexError | KeyError

type_synonym label = nat
type_synonym series = "rat list"
type_synonym params = "int \<times> nat \<times> bool"

text \<open>\<^verbatim>\<open>int(x)\<close> on a float truncates towards zero.\<close>

definition py_int :: "rat \<Rightarrow> int" where
  "py_int x = (if 0 \<le> x then \<lfloor>x\<rfloor> else \<lceil>x\<rceil>)"

text \<open>\<^verbatim>\<open>a / b\<close> on Python numbers raises on a zero divisor.\<close>

definition py_truediv :: "rat \<Rightarrow> rat \<Rightarrow> error + rat" where
  "py_truediv a b = (if b = 0 then Inl ZeroDivisionError else Inr (a / b))"

text \<open>
  A NumPy float that need not be finite; \<^verbatim>\<open>a / b\<close> on NumPy arrays does not raise,
  a zero divisor gives nan or an infinity.
\<close>

datatype npfloat = Fin rat | PInf | NInf | NaN

definition np_divide :: "rat \<Rightarrow> rat \<Rightarrow> npfloat" where
  "np_divide a b = (if b \<noteq> 0 then Fin (a / b)
                    else if a = 0 then NaN else if a > 0 then PInf else NInf)"

text \<open>\<^verbatim>\<open>xs[i]\<close> with a non-negative index.\<close>

definition getitem :: "'a list \<Rightarrow> nat \<Rightarrow> error + 'a" where
  "getitem xs i = (if i < length xs then Inr (xs ! i) else Inl IndexError)"

text \<open>\<^verbatim>\<open>xs[i] = v\<close> on a Python list: a negative index counts from the end.\<close>

definition setitem :: "'a list \<Rightarrow> int \<Rightarrow> 'a \<Rightarrow> error + 'a list" where
  "setitem xs i v =
     (let n = int (length xs); j = (if i < 0 then n + i else i)
      in if 0 \<le> j \<and> j < n then Inr (xs[nat j := v]) else Inl IndexError)"

subsection \<open>The base learner\<close>

text \<open>
  \<^verbatim>\<open>IndividualBOSS\<close> is an external collaborator. A trained learner is the data the
  ensemble attaches to it (\<open>subsample\<close>, \<open>accuracy\<close>) and its two query functions:
  \<open>train_predict i\<close> is \<^verbatim>\<open>boss._train_predict(i)\<close> and \<open>predict x\<close> is the label
  \<^verbatim>\<open>boss.predict\<close> gives to the series \<open>x\<close>.
\<close>

record boss =
  parameters :: params
  subsample :: "nat list"
  accuracy :: rat
  train_predict :: "nat \<Rightarrow> label"
  predict :: "series \<Rightarrow> label"

subsection \<open>\<^verbatim>\<open>_individual_train_acc\<close>\<close>

text \<open>
  The result pairs the returned accuracy with the number of \<^verbatim>\<open>_train_predict\<close> calls
  made, which is where the two paths differ.
\<close>

fun seq_loop ::
  "boss \<Rightarrow> label list \<Rightarrow> nat \<Rightarrow> int \<Rightarrow> nat list \<Rightarrow> nat \<Rightarrow> nat \<Rightarrow> error + rat \<times> nat" where
  "seq_loop b y train_size required_correct [] correct evals =
     (case py_truediv (of_nat correct) (of_nat train_size) of
        Inl e \<Rightarrow> Inl e
      | Inr a \<Rightarrow> Inr (a, evals))"
| "seq_loop b y train_size required_correct (i # is) correct evals =
     (if int correct + int train_size - int i < required_correct then Inr (- 1, evals)
      else let c = train_predict b i in
        (case getitem y i of
           Inl e \<Rightarrow> Inl e
         | Inr yi \<Rightarrow>
             seq_loop b y train_size required_correct is
               (if c = yi then correct + 1 else correct) (evals + 1)))"

fun par_loop ::
  "label list \<Rightarrow> label list \<Rightarrow> nat \<Rightarrow> int \<Rightarrow> nat list \<Rightarrow> nat \<Rightarrow> error + rat" where
  "par_loop c y train_size required_correct [] correct =
     py_truediv (of_nat correct) (of_nat train_size)"
| "par_loop c y train_size required_correct (i # is) correct =
     (if int correct + int train_size - int i < required_correct then Inr (- 1)
      else
        (case getitem c i of
           Inl e \<Rightarrow> Inl e
         | Inr ci \<Rightarrow>
            (case getitem y i of
               Inl e \<Rightarrow> Inl e
             | Inr yi \<Rightarrow>
                 par_loop c y train_size required_correct is
                   (if ci = yi then correct + 1 else correct))))"

definition individual_train_acc ::
  "int \<Rightarrow> boss \<Rightarrow> label list \<Rightarrow> nat \<Rightarrow> rat \<Rightarrow> error + rat \<times> nat" where
  "individual_train_acc n_jobs b y train_size lowest_acc =
     (let required_correct = py_int (lowest_acc * of_nat train_size) in
      if n_jobs > 1 then
        (let c = map (train_predict b) [0..<train_size] in
         case par_loop c y train_size required_correct [0..<train_size] 0 of
           Inl e \<Rightarrow> Inl e
         | Inr a \<Rightarrow> Inr (a, train_size))
      else seq_loop b y train_size required_correct [0..<train_size] 0 0)"

subsection \<open>The classifier object\<close>

record cboss =
  n_parameter_samples :: int
  max_ensemble_size :: int
  max_win_len_prop :: rat
  time_limit_in_minutes :: rat
  n_jobs :: int
  random_state :: int
  classifiers :: "boss list"
  weights :: "rat list"
  weight_sum :: rat
  n_classes :: nat
  classes :: "label list"
  class_dictionary :: "label \<rightharpoonup> nat"
  n_estimators :: nat
  series_length :: nat
  n_instances :: nat
  word_lengths :: "nat list"
  norm_options :: "bool list"
  min_window :: int
  alphabet_size :: nat

text \<open>\<^verbatim>\<open>__init__\<close>, its arguments in the order of the source.\<close>

definition init :: "int \<Rightarrow> int \<Rightarrow> rat \<Rightarrow> int \<Rightarrow> rat \<Rightarrow> int \<Rightarrow> int \<Rightarrow> cboss" where
  "init n_parameter_samples' max_ensemble_size' max_win_len_prop' min_window'
      time_limit_in_minutes' n_jobs' random_state' =
     \<lparr>n_parameter_samples = n_parameter_samples',
      max_ensemble_size = max_ensemble_size',
      max_win_len_prop = max_win_len_prop',
      time_limit_in_minutes = time_limit_in_minutes',
      n_jobs = n_jobs',
      random_state = random_state',
      classifiers = [],
      weights = [],
      weight_sum = 0,
      n_classes = 0,
      classes = [],
      class_dictionary = Map.empty,
      n_estimators = 0,
      series_length = 0,
      n_instances = 0,
      word_lengths = [16, 14, 12, 10, 8],
      norm_options = [True, False],
      min_window = min_window',
      alphabet_size = 4\<rparr>"

text \<open>
  The training panel \<^verbatim>\<open>X\<close> of shape \<^verbatim>\<open>(n_instances, 1, series_length)\<close>: its single
  channel as a list of series, and the length \<^verbatim>\<open>X.shape[2]\<close>.
\<close>

record panel =
  series_len :: nat
  cases :: "series list"

subsection \<open>The outside world of \<^verbatim>\<open>_fit\<close>\<close>

text \<open>
  The random generator, the base learner's training and the wall clock are parameters.
  \<open>randint g n\<close> is \<^verbatim>\<open>rng.randint(0, n)\<close>, \<open>choice g n k\<close> is
  \<^verbatim>\<open>rng.choice(n, size=k, replace=False)\<close>, \<open>choice_of g xs\<close> is \<^verbatim>\<open>rng.choice(xs)\<close>
  on a non-empty array, each with the generator's next state. \<open>train\<close> is
  \<^verbatim>\<open>IndividualBOSS(*parameters, alphabet_size, random_state).fit(X, y)\<close>, returning the
  learner's two query functions. \<open>clock k\<close> is what \<^verbatim>\<open>time.time() - start_time\<close> reads
  at the end of iteration \<open>k\<close> of the search loop.
\<close>

type_synonym rng = nat

record env =
  check_random_state :: "int \<Rightarrow> rng"
  randint :: "rng \<Rightarrow> nat \<Rightarrow> nat \<times> rng"
  choice :: "rng \<Rightarrow> nat \<Rightarrow> nat \<Rightarrow> nat list \<times> rng"
  choice_of :: "rng \<Rightarrow> nat list \<Rightarrow> nat \<times> rng"
  train :: "params \<Rightarrow> nat \<Rightarrow> int \<Rightarrow> series list \<Rightarrow> label list \<Rightarrow>
             (nat \<Rightarrow> label) \<times> (series \<Rightarrow> label)"
  clock :: "nat \<Rightarrow> rat"

subsection \<open>\<^verbatim>\<open>_unique_parameters\<close> and \<^verbatim>\<open>_worst_ensemble_acc\<close>\<close>

text \<open>\<^verbatim>\<open>range(a, b, step)\<close> for a step of at least 1, as at its only call.\<close>

definition py_range :: "int \<Rightarrow> int \<Rightarrow> int \<Rightarrow> int list" where
  "py_range a b step = map (\<lambda>k. a + int k * step) [0..<nat ((b - a + step - 1) div step)]"

definition unique_parameters :: "cboss \<Rightarrow> int \<Rightarrow> int \<Rightarrow> params list" where
  "unique_parameters self max_window win_inc =
     concat (map (\<lambda>normalise.
       concat (map (\<lambda>win_size.
         map (\<lambda>word_len. (win_size, word_len, normalise)) (word_lengths self))
         (py_range (min_window self) (max_window + 1) win_inc)))
       (norm_options self))"

definition worst_ensemble_acc :: "cboss \<Rightarrow> rat \<times> int" where
  "worst_ensemble_acc self =
     fold (\<lambda>(c, classifier) (min_acc, min_acc_idx).
             if accuracy classifier < min_acc then (accuracy classifier, int c)
             else (min_acc, min_acc_idx))
          (enumerate 0 (classifiers self)) (1, - 1)"

subsection \<open>\<^verbatim>\<open>_fit\<close>\<close>

text \<open>The local variables of the search loop, with the object they update.\<close>

record search =
  this :: cboss
  possible_parameters :: "params list"
  num_classifiers :: nat
  train_time :: rat
  lowest_acc :: rat
  lowest_acc_idx :: int
  rng_state :: rng

text \<open>\<^verbatim>\<open>xs.pop(i)\<close> with a non-negative index.\<close>

definition pop :: "'a list \<Rightarrow> nat \<Rightarrow> error + 'a \<times> 'a list" where
  "pop xs i = (if i < length xs then Inr (xs ! i, take i xs @ drop (Suc i) xs)
               else Inl IndexError)"

text \<open>\<^verbatim>\<open>a[idx]\<close> for a NumPy array \<^verbatim>\<open>a\<close> and an index array \<^verbatim>\<open>idx\<close>.\<close>

definition take_rows :: "'a list \<Rightarrow> nat list \<Rightarrow> error + 'a list" where
  "take_rows xs idx = (if \<forall>i \<in> set idx. i < length xs then Inr (map (\<lambda>i. xs ! i) idx)
                       else Inl IndexError)"

text \<open>The weight of a scored candidate (lines 248 to 251).\<close>

definition weight_of :: "rat \<Rightarrow> rat" where
  "weight_of acc = (if acc > 0 then acc ^ 4 else 1 / 10 ^ 9)"

text \<open>Retaining or dropping the scored candidate (lines 253 to 262).\<close>

definition retain :: "search \<Rightarrow> boss \<Rightarrow> rat \<Rightarrow> error + search" where
  "retain s b weight =
     (let self = this s in
      if int (num_classifiers s) < max_ensemble_size self then
        (let s1 = (if accuracy b < lowest_acc s
                   then s\<lparr>lowest_acc := accuracy b, lowest_acc_idx := int (num_classifiers s)\<rparr>
                   else s)
         in Inr (s1\<lparr>this := self\<lparr>weights := weights self @ [weight],
                                   classifiers := classifiers self @ [b]\<rparr>\<rparr>))
      else if accuracy b > lowest_acc s then
        (case setitem (weights self) (lowest_acc_idx s) weight of
           Inl e \<Rightarrow> Inl e
         | Inr ws \<Rightarrow>
            (case setitem (classifiers self) (lowest_acc_idx s) b of
               Inl e \<Rightarrow> Inl e
             | Inr cs \<Rightarrow>
                 (let self1 = self\<lparr>weights := ws, classifiers := cs\<rparr>;
                      (acc, idx) = worst_ensemble_acc self1
                  in Inr (s\<lparr>this := self1, lowest_acc := acc, lowest_acc_idx := idx\<rparr>))))
      else Inr s)"

text \<open>One iteration of the search loop (lines 224 to 265).\<close>

definition search_step ::
  "env \<Rightarrow> panel \<Rightarrow> label list \<Rightarrow> nat \<Rightarrow> search \<Rightarrow> error + search" where
  "search_step E X y subsample_size s =
     (let self = this s;
          (r, g1) = randint E (rng_state s) (length (possible_parameters s))
      in (case pop (possible_parameters s) r of
            Inl e \<Rightarrow> Inl e
          | Inr (parameters', rest) \<Rightarrow>
       (let (subsample', g2) = choice E g1 (n_instances self) subsample_size
        in (case take_rows (cases X) subsample' of
              Inl e \<Rightarrow> Inl e
            | Inr X_subsample \<Rightarrow>
         (case take_rows y subsample' of
            Inl e \<Rightarrow> Inl e
          | Inr y_subsample \<Rightarrow>
         (let (tp, pr) = train E parameters' (alphabet_size self) (random_state self)
                           X_subsample y_subsample;
              b = \<lparr>parameters = parameters', subsample = subsample', accuracy = 0,
                   train_predict = tp, predict = pr\<rparr>
          in (case individual_train_acc (n_jobs self) b y_subsample subsample_size
                     (if int (num_classifiers s) < max_ensemble_size self then 0
                      else lowest_acc s) of
                Inl e \<Rightarrow> Inl e
              | Inr (acc, evals) \<Rightarrow>
           (let b1 = b\<lparr>accuracy := acc\<rparr>;
                weight = weight_of (accuracy b1)
            in (case retain (s\<lparr>possible_parameters := rest, rng_state := g2\<rparr>) b1 weight of
                  Inl e \<Rightarrow> Inl e
                | Inr s1 \<Rightarrow>
                    Inr (s1\<lparr>num_classifiers := num_classifiers s1 + 1,
                            train_time := clock E (num_classifiers s1 + 1)\<rparr>))))))))))"

function search_loop ::
  "env \<Rightarrow> panel \<Rightarrow> label list \<Rightarrow> rat \<Rightarrow> nat \<Rightarrow> search \<Rightarrow> error + search" where
  "search_loop E X y time_limit subsample_size s =
     (if (train_time s < time_limit
            \<or> int (num_classifiers s) < n_parameter_samples (this s))
          \<and> length (possible_parameters s) > 0
      then (case search_step E X y subsample_size s of
              Inl e \<Rightarrow> Inl e
            | Inr s1 \<Rightarrow> search_loop E X y time_limit subsample_size s1)
      else Inr s)"
  by pat_completeness auto
termination
proof (relation "measure (\<lambda>(E, X, y, time_limit, subsample_size, s).
                   length (possible_parameters s))")
  show "wf (measure (\<lambda>(E, X, y, time_limit, subsample_size, s).
                   length (possible_parameters s)))"
    by simp
next
  fix E :: env and X :: panel and y :: "label list" and time_limit :: rat
    and subsample_size :: nat and s s1 :: search
  assume step: "search_step E X y subsample_size s = Inr s1"
  have popped: "length ys < length xs" if "pop xs i = Inr (x, ys)"
    for xs ys :: "params list" and i x
    using that by (auto simp: pop_def split: if_splits)
  have kept: "possible_parameters s' = possible_parameters s0" if "retain s0 b w = Inr s'"
    for s0 s' b w
    using that by (auto simp: retain_def Let_def split: if_splits sum.splits prod.splits)
  have "length (possible_parameters s1) < length (possible_parameters s)"
    using step
    by (auto simp: search_step_def Let_def split: sum.splits prod.splits
             dest!: popped kept)
  then show "((E, X, y, time_limit, subsample_size, s1), (E, X, y, time_limit, subsample_size, s))
        \<in> measure (\<lambda>(E, X, y, time_limit, subsample_size, s). length (possible_parameters s))"
    by simp
qed

declare search_loop.simps [simp del]

text \<open>
  \<^verbatim>\<open>_fit\<close> in three parts: the lines before the loop (182 to 219), which give the time
  limit, the subsample size and the loop's initial variables; the loop; the two lines
  after it (267, 268).
\<close>

definition fit_setup :: "env \<Rightarrow> cboss \<Rightarrow> panel \<Rightarrow> label list \<Rightarrow> error + rat \<times> nat \<times> search" where
  "fit_setup E self X y =
     (let time_limit = time_limit_in_minutes self * 60;
          self1 = self\<lparr>n_instances := length (cases X), series_length := series_len X,
                       n_classes := length (remdups y), classes := sort (remdups y)\<rparr>;
          self2 = self1\<lparr>class_dictionary :=
                    fold (\<lambda>(index, classVal) d. d(classVal \<mapsto> index))
                      (enumerate 0 (classes self1)) (class_dictionary self1)\<rparr>;
          self3 = self2\<lparr>classifiers := [], weights := []\<rparr>;
          max_window_searches = of_nat (series_length self3) / 4;
          max_window = py_int (of_nat (series_length self3) * max_win_len_prop self3)
      in (case py_truediv (of_int (max_window - min_window self3)) max_window_searches of
            Inl e \<Rightarrow> Inl e
          | Inr q \<Rightarrow>
       (let win_inc = (if py_int q < 1 then 1 else py_int q)
        in if min_window self3 > max_window + 1 then Inl ValueError
        else
         (let possible_parameters' = unique_parameters self3 max_window win_inc;
              subsample_size = nat (py_int (of_nat (n_instances self3) * (7 / 10)));
              rng = check_random_state E (random_state self3);
              self4 = (if time_limit > 0 then self3\<lparr>n_parameter_samples := 0\<rparr> else self3)
          in Inr (time_limit, subsample_size,
                  \<lparr>this = self4, possible_parameters = possible_parameters',
                   num_classifiers = 0, train_time = 0, lowest_acc = 1,
                   lowest_acc_idx = 0, rng_state = rng\<rparr>)))))"

text \<open>The state of the loop's variables when the loop ends.\<close>

definition fit_search :: "env \<Rightarrow> cboss \<Rightarrow> panel \<Rightarrow> label list \<Rightarrow> error + search" where
  "fit_search E self X y =
     (case fit_setup E self X y of
        Inl e \<Rightarrow> Inl e
      | Inr (time_limit, subsample_size, s0) \<Rightarrow>
          search_loop E X y time_limit subsample_size s0)"

definition fit :: "env \<Rightarrow> cboss \<Rightarrow> panel \<Rightarrow> label list \<Rightarrow> error + cboss" where
  "fit E self X y =
     (case fit_search E self X y of
        Inl e \<Rightarrow> Inl e
      | Inr s \<Rightarrow>
          Inr ((this s)\<lparr>n_estimators := length (classifiers (this s)),
                       weight_sum := sum_list (weights (this s))\<rparr>))"

subsection \<open>\<^verbatim>\<open>_predict_proba\<close> and \<^verbatim>\<open>_predict\<close>\<close>

text \<open>
  \<^verbatim>\<open>sums[i, k] += w\<close> on a two-dimensional array. The array \<^verbatim>\<open>sums\<close> of the source
  is \<open>tot\<close> here, \<open>sums\<close> being the name of a relation of HOL.
\<close>

definition add_at :: "rat list list \<Rightarrow> nat \<Rightarrow> nat \<Rightarrow> rat \<Rightarrow> error + rat list list" where
  "add_at tot i k w =
     (if i < length tot \<and> k < length (tot ! i)
      then Inr (tot[i := (tot ! i)[k := tot ! i ! k + w]])
      else Inl IndexError)"

fun vote_rows ::
  "cboss \<Rightarrow> label list \<Rightarrow> nat \<Rightarrow> nat list \<Rightarrow> rat list list \<Rightarrow> error + rat list list" where
  "vote_rows self preds n [] tot = Inr tot"
| "vote_rows self preds n (i # is) tot =
     (case getitem preds i of
        Inl e \<Rightarrow> Inl e
      | Inr p \<Rightarrow>
         (case class_dictionary self p of
            None \<Rightarrow> Inl KeyError
          | Some k \<Rightarrow>
             (case getitem (weights self) n of
                Inl e \<Rightarrow> Inl e
              | Inr w \<Rightarrow>
                 (case add_at tot i k w of
                    Inl e \<Rightarrow> Inl e
                  | Inr tot1 \<Rightarrow> vote_rows self preds n is tot1))))"

fun vote_members ::
  "cboss \<Rightarrow> panel \<Rightarrow> (nat \<times> boss) list \<Rightarrow> rat list list \<Rightarrow> error + rat list list" where
  "vote_members self X [] tot = Inr tot"
| "vote_members self X ((n, clf) # rest) tot =
     (let preds = map (predict clf) (cases X)
      in (case vote_rows self preds n [0..<length (cases X)] tot of
            Inl e \<Rightarrow> Inl e
          | Inr tot1 \<Rightarrow> vote_members self X rest tot1))"

definition predict_proba :: "cboss \<Rightarrow> panel \<Rightarrow> error + npfloat list list" where
  "predict_proba self X =
     (let tot = replicate (length (cases X)) (replicate (n_classes self) 0)
      in (case vote_members self X (enumerate 0 (classifiers self)) tot of
            Inl e \<Rightarrow> Inl e
          | Inr tot1 \<Rightarrow>
              Inr (map (map (\<lambda>v. np_divide v (1 * weight_sum self))) tot1)))"






subsection \<open>\<^verbatim>\<open>_get_train_probs\<close>\<close>








section \<open>The specification's vocabulary\<close>

text \<open>
  The definitions of this section follow the words of the specification, not the source;
  the theorems below compare them with the functions translated from the source.
\<close>

subsection \<open>Leave-one-out accuracy with early abandonment\<close>

text \<open>The running count \<open>correct\<close> before instance \<open>i\<close> is evaluated.\<close>

definition correct_upto :: "boss \<Rightarrow> label list \<Rightarrow> nat \<Rightarrow> nat" where
  "correct_upto b y i = length (filter (\<lambda>j. train_predict b j = y ! j) [0..<i])"

text \<open>Even a perfect remaining record cannot reach the threshold.\<close>

definition abandons_at :: "boss \<Rightarrow> label list \<Rightarrow> nat \<Rightarrow> int \<Rightarrow> nat \<Rightarrow> bool" where
  "abandons_at b y S requiredCorrect i =
     (int (correct_upto b y i) + (int S - int i) < requiredCorrect)"


text \<open>The value an estimate returns, without the count of evaluations.\<close>

definition returned :: "error + rat \<times> nat \<Rightarrow> error + rat" where
  "returned r = (case r of Inl e \<Rightarrow> Inl e | Inr (a, n) \<Rightarrow> Inr a)"

subsection \<open>Weighted votes\<close>

text \<open>
  The vote of one retained member, with its weight, on the series \<open>x\<close>, as seen from
  the class index \<open>k\<close>: the weight when the member predicts that class, nothing
  otherwise.
\<close>

definition vote :: "cboss \<Rightarrow> series \<Rightarrow> nat \<Rightarrow> rat \<times> boss \<Rightarrow> rat" where
  "vote self x k = (\<lambda>(w, clf). if class_dictionary self (predict clf x) = Some k then w else 0)"

text \<open>The per-class accumulation of the retained members' weights.\<close>

definition class_score :: "cboss \<Rightarrow> series \<Rightarrow> nat \<Rightarrow> rat" where
  "class_score self x k = sum_list (map (vote self x k) (zip (weights self) (classifiers self)))"

subsection \<open>Out-of-bag votes\<close>





section \<open>The vocabulary of the proofs\<close>

subsection \<open>The ensemble and its minimum\<close>

text \<open>
  The minimum retained accuracy, with the scan's starting value 1 as its ceiling (no
  accuracy exceeds 1), and the first position that attains a value.
\<close>

definition min_accuracy :: "boss list \<Rightarrow> rat" where
  "min_accuracy cs = fold min (map accuracy cs) 1"

definition first_position :: "rat \<Rightarrow> boss list \<Rightarrow> nat" where
  "first_position m cs = length (takeWhile (\<lambda>c. accuracy c \<noteq> m) cs)"

text \<open>
  What the loop of \<^verbatim>\<open>_fit\<close> keeps true of its variables: the weights are those of the
  members' accuracies, no accuracy exceeds 1, \<^verbatim>\<open>lowest_acc\<close> is the minimum retained
  accuracy and, when that is below 1, \<^verbatim>\<open>lowest_acc_idx\<close> is the first position that
  attains it, and the ensemble has grown with the candidates up to its capacity.
\<close>

definition search_inv :: "search \<Rightarrow> bool" where
  "search_inv s =
     (let cs = classifiers (this s) in
      weights (this s) = map (\<lambda>c. weight_of (accuracy c)) cs
      \<and> list_all (\<lambda>c. accuracy c \<le> 1) cs
      \<and> lowest_acc s = min_accuracy cs
      \<and> (lowest_acc s < 1 \<longrightarrow> lowest_acc_idx s = int (first_position (lowest_acc s) cs))
      \<and> length cs = (if int (num_classifiers s) < max_ensemble_size (this s)
                      then num_classifiers s else nat (max_ensemble_size (this s))))"

text \<open>The object without its two lists, the only attributes the loop writes.\<close>

definition frame :: "cboss \<Rightarrow> cboss" where
  "frame self = self\<lparr>weights := [], classifiers := []\<rparr>"

subsection \<open>Class totals\<close>

text \<open>One vote: the weight \<open>w\<close> added to entry \<open>k\<close> of a row of class totals.\<close>

definition bump :: "rat list \<Rightarrow> nat \<Rightarrow> rat \<Rightarrow> rat list" where
  "bump row k w = row[k := row ! k + w]"

subsection \<open>What the generator promises\<close>

text \<open>
  NumPy's contract for the two draws of the loop: \<^verbatim>\<open>randint(0, n)\<close> is below \<open>n\<close>, and
  \<^verbatim>\<open>choice(n, size=k, replace=False)\<close> has \<open>k\<close> entries, each below \<open>n\<close>.
\<close>

definition rng_ok :: "env \<Rightarrow> bool" where
  "rng_ok E =
     ((\<forall>g n. 0 < n \<longrightarrow> fst (randint E g n) < n) \<and>
      (\<forall>g n k. k \<le> n \<longrightarrow> length (fst (choice E g n k)) = k \<and>
                            (\<forall>i \<in> set (fst (choice E g n k)). i < n)))"

section \<open>A small training problem\<close>

text \<open>
  Concrete inputs on which the theorems are exercised: eight series of length four with
  two classes, a generator that always draws the first remaining parameter tuple and a
  rotating subsample, and a learner whose leave-one-out predictions are right on a
  number of leading instances fixed by the word length, and which labels an unseen series by
  the sign of its first value (the wrong way round at word length 16).
\<close>

definition ex_labels :: "label list" where
  "ex_labels = [0, 1, 0, 1, 0, 1, 0, 1]"

definition ex_learner :: "nat \<Rightarrow> label list \<Rightarrow> nat \<Rightarrow> label" where
  "ex_learner c ys i =
     (if i < length ys then (if i < c then ys ! i else 1 - ys ! i) else 0)"

text \<open>How many leading instances the learner of a given word length gets right.\<close>

definition ex_correct :: "nat \<Rightarrow> nat" where
  "ex_correct word_len =
     (if word_len = 16 then 0 else if word_len = 14 then 3 else if word_len = 12 then 4
      else if word_len = 10 then 5 else 2)"

definition ex_boss :: boss where
  "ex_boss = \<lparr>parameters = (4, 16, True), subsample = [0, 1, 2, 3, 4], accuracy = 0,
              train_predict = ex_learner 3 [0, 1, 0, 1, 0], predict = (\<lambda>x. 0)\<rparr>"

definition ex_panel :: panel where
  "ex_panel = \<lparr>series_len = 4,
               cases = [[0, 0, 0, 0], [1, 1, 1, 1], [0, 0, 1, 0], [1, 1, 0, 1],
                        [0, 1, 0, 0], [1, 0, 1, 1], [0, 0, 0, 1], [1, 1, 1, 0]]\<rparr>"

definition ex_env :: env where
  "ex_env =
     \<lparr>check_random_state = (\<lambda>seed. nat \<bar>seed\<bar>),
      randint = (\<lambda>g n. (0, g + 1)),
      choice = (\<lambda>g n k. (map (\<lambda>j. (j + g) mod n) [0..<k], g + 1)),
      choice_of = (\<lambda>g xs. (case xs of [] \<Rightarrow> 0 | x # _ \<Rightarrow> x, g + 1)),
      train = (\<lambda>(win_size, word_len, normalise) alphabet seed Xs ys.
                 (ex_learner (ex_correct word_len) ys,
                  (\<lambda>x. case x of [] \<Rightarrow> 0
                              | v # _ \<Rightarrow> if (v > 0) = (word_len \<noteq> 16) then 1 else 0))),
      clock = (\<lambda>k. of_nat k)\<rparr>"

text \<open>
  Two states of the loop at capacity: one member of accuracy 0.6 in an ensemble of one,
  and members of accuracy 0.8 and 1 in an ensemble of two.
\<close>

definition ex_member :: "rat \<Rightarrow> boss" where
  "ex_member a = ex_boss\<lparr>accuracy := a\<rparr>"

definition ex_search :: search where
  "ex_search =
     \<lparr>this = (init 3 1 1 4 0 1 0)\<lparr>classifiers := [ex_member (3 / 5)],
                                    weights := [weight_of (3 / 5)]\<rparr>,
      possible_parameters = [], num_classifiers = 1, train_time = 1,
      lowest_acc = 3 / 5, lowest_acc_idx = 0, rng_state = 2\<rparr>"

definition ex_search_tie :: search where
  "ex_search_tie =
     \<lparr>this = (init 9 2 1 4 0 1 0)\<lparr>classifiers := [ex_member (4 / 5), ex_member 1],
                                    weights := [weight_of (4 / 5), weight_of 1]\<rparr>,
      possible_parameters = [], num_classifiers = 8, train_time = 8,
      lowest_acc = 4 / 5, lowest_acc_idx = 0, rng_state = 16\<rparr>"




section \<open>The accuracy estimator\<close>

lemma correct_upto_Suc:
  "correct_upto b y (Suc k) =
     (if train_predict b k = y ! k then correct_upto b y k + 1 else correct_upto b y k)"
  by (simp add: correct_upto_def)

lemma seq_loop_from:
  "k \<le> S \<Longrightarrow> S \<le> length y \<Longrightarrow>
   seq_loop b y S req [k..<S] (correct_upto b y k) k =
     (case find (abandons_at b y S req) [k..<S] of
        Some i \<Rightarrow> Inr (- 1, i)
      | None \<Rightarrow>
          (if S = 0 then Inl ZeroDivisionError
           else Inr (of_nat (correct_upto b y S) / of_nat S, S)))"
proof (induction "S - k" arbitrary: k)
  case 0
  then show ?case by (simp add: py_truediv_def)
next
  case (Suc d)
  then have lt: "k < S" and d: "d = S - Suc k" by simp_all
  have upt: "[k..<S] = k # [Suc k..<S]" using lt by (simp add: upt_conv_Cons)
  show ?case
  proof (cases "abandons_at b y S req k")
    case True
    then show ?thesis unfolding upt by (simp add: abandons_at_def)
  next
    case False
    have ih: "seq_loop b y S req [Suc k..<S] (correct_upto b y (Suc k)) (Suc k) =
       (case find (abandons_at b y S req) [Suc k..<S] of
          Some i \<Rightarrow> Inr (- 1, i)
        | None \<Rightarrow>
            (if S = 0 then Inl ZeroDivisionError
             else Inr (of_nat (correct_upto b y S) / of_nat S, S)))"
      using Suc.hyps(1)[OF d] lt Suc.prems by simp
    have ky: "k < length y" using lt Suc.prems by simp
    from False ih ky show ?thesis unfolding upt
      by (simp add: abandons_at_def getitem_def correct_upto_Suc)
  qed
qed






text \<open>The parallel path asks the learner for every one of the \<open>S\<close> predictions.\<close>

lemma parallel_evaluates_all:
  "1 < jobs \<Longrightarrow> individual_train_acc jobs b y S la = Inr (a, n) \<Longrightarrow> n = S"
  by (auto simp: individual_train_acc_def Let_def split: sum.splits)

lemma loops_agree:
  "\<forall>i \<in> set is. i < S \<Longrightarrow>
   returned (seq_loop b y S req is correct evals) =
     par_loop (map (train_predict b) [0..<S]) y S req is correct"
proof (induction "is" arbitrary: correct evals)
  case Nil
  then show ?case by (simp add: returned_def split: sum.splits)
next
  case (Cons i "is")
  then show ?case
    by (auto simp: returned_def getitem_def Let_def split: sum.splits)
qed

text \<open>
  Claim C3. For every learner, label vector, subsample size and threshold, the parallel
  path (\<open>n_jobs > 1\<close>), which computes every leave-one-out prediction first and then
  applies the abandonment inequality instance by instance, returns the value the
  sequential path (\<open>n_jobs \<le> 1\<close>) returns: the same sentinel, the same \<open>correct / S\<close>,
  the same exception.
\<close>

theorem individual_train_acc_parallel:
  assumes "1 < jobs" and "jobs' \<le> 1"
  shows "returned (individual_train_acc jobs b y S la) =
         returned (individual_train_acc jobs' b y S la)"
proof -
  have "returned (seq_loop b y S req [0..<S] 0 0) =
        par_loop (map (train_predict b) [0..<S]) y S req [0..<S] 0" for req
    by (rule loops_agree) simp
  then show ?thesis using assms
    by (simp add: individual_train_acc_def Let_def returned_def split: sum.splits prod.splits)
qed

theorem individual_train_acc_parallel_witness:
  "(1::int) < 2 \<and> (1::int) \<le> 1 \<and>
   returned (individual_train_acc 2 ex_boss [0, 1, 0, 1, 0] 5 1) = Inr (- 1) \<and>
   returned (individual_train_acc 1 ex_boss [0, 1, 0, 1, 0] 5 1) = Inr (- 1)"
  using individual_train_acc_parallel [of 2 1 ex_boss "[0, 1, 0, 1, 0]" 5 1]
  by (simp add: individual_train_acc_def returned_def py_int_def getitem_def ex_boss_def
        ex_learner_def upt_rec)

section \<open>The search loop\<close>

lemma search_loop_invariant:
  assumes step: "\<And>s s1. P s \<Longrightarrow> search_step E X y k s = Inr s1 \<Longrightarrow> P s1"
  shows "P s \<Longrightarrow> search_loop E X y tlim k s = Inr s' \<Longrightarrow> P s'"
  using step
proof (induction E X y tlim k s rule: search_loop.induct)
  case (1 E X y tlim k s)
  show ?case
  proof (cases "(train_time s < tlim \<or> int (num_classifiers s) < n_parameter_samples (this s))
          \<and> length (possible_parameters s) > 0")
    case True
    then obtain s1 where s1: "search_step E X y k s = Inr s1"
      and rest: "search_loop E X y tlim k s1 = Inr s'"
      using "1.prems"(2) by (subst (asm) search_loop.simps) (auto split: sum.splits)
    have "P s1" using "1.prems"(3)[OF "1.prems"(1) s1] .
    then show ?thesis
      using "1.IH"[OF True s1 _ rest] "1.prems"(3) by blast
  next
    case False
    then have "s' = s" using "1.prems"(2) by (subst (asm) search_loop.simps) auto
    then show ?thesis using "1.prems"(1) by simp
  qed
qed


lemma seq_loop_le_1:
  "correct + length is \<le> S \<Longrightarrow> seq_loop b y S req is correct evals = Inr (a, n) \<Longrightarrow> a \<le> 1"
proof (induction "is" arbitrary: correct evals)
  case Nil
  then show ?case by (auto simp: py_truediv_def split: if_splits)
next
  case (Cons i "is")
  show ?case
  proof (cases "int correct + int S - int i < req")
    case True
    then show ?thesis using Cons.prems by simp
  next
    case False
    then obtain c' where "seq_loop b y S req is c' (evals + 1) = Inr (a, n)"
      and "c' \<le> correct + 1"
      using Cons.prems(2) by (auto simp: getitem_def Let_def split: if_splits)
    then show ?thesis using Cons.IH[of c' "evals + 1"] Cons.prems(1) by simp
  qed
qed

lemma par_loop_le_1:
  "correct + length is \<le> S \<Longrightarrow> par_loop c y S req is correct = Inr a \<Longrightarrow> a \<le> 1"
proof (induction "is" arbitrary: correct)
  case Nil
  then show ?case by (auto simp: py_truediv_def split: if_splits)
next
  case (Cons i "is")
  show ?case
  proof (cases "int correct + int S - int i < req")
    case True
    then show ?thesis using Cons.prems by simp
  next
    case False
    then obtain c' where "par_loop c y S req is c' = Inr a"
      and "c' \<le> correct + 1"
      using Cons.prems(2) by (auto simp: getitem_def Let_def split: if_splits)
    then show ?thesis using Cons.IH[of c'] Cons.prems(1) by simp
  qed
qed

lemma individual_train_acc_le_1:
  assumes "individual_train_acc jobs b y S la = Inr (a, n)"
  shows "a \<le> 1"
proof (cases "jobs > 1")
  case True
  then have "par_loop (map (train_predict b) [0..<S]) y S (py_int (la * of_nat S)) [0..<S] 0 = Inr a"
    using assms by (auto simp: individual_train_acc_def Let_def split: sum.splits)
  then show ?thesis using par_loop_le_1[of 0 "[0..<S]" S] by simp
next
  case False
  then have "seq_loop b y S (py_int (la * of_nat S)) [0..<S] 0 0 = Inr (a, n)"
    using assms by (auto simp: individual_train_acc_def Let_def)
  then show ?thesis using seq_loop_le_1[of 0 "[0..<S]" S] by simp
qed

section \<open>The minimum retained accuracy\<close>

lemma fold_min_le: "fold min xs (m::rat) \<le> m"
proof (induction xs arbitrary: m)
  case Nil
  show ?case by simp
next
  case (Cons a xs)
  have "fold min xs (min a m) \<le> min a m" by (rule Cons.IH)
  then show ?case by simp
qed

lemma min_accuracy_Min: "min_accuracy cs = Min (insert 1 (accuracy ` set cs))"
  using Min.set_eq_fold[of 1 "map accuracy cs"] by (simp add: min_accuracy_def)

lemma min_accuracy_le_1: "min_accuracy cs \<le> 1"
  by (simp add: min_accuracy_Min)

lemma min_accuracy_le: "c \<in> set cs \<Longrightarrow> min_accuracy cs \<le> accuracy c"
  by (simp add: min_accuracy_Min)

lemma min_accuracy_attained: "min_accuracy cs < 1 \<Longrightarrow> min_accuracy cs \<in> accuracy ` set cs"
proof -
  assume lt: "min_accuracy cs < 1"
  have "Min (insert 1 (accuracy ` set cs)) \<in> insert 1 (accuracy ` set cs)"
    by (rule Min_in) simp_all
  then show ?thesis using lt by (auto simp: min_accuracy_Min)
qed

lemma min_accuracy_append:
  "min_accuracy (cs @ [b]) = min (accuracy b) (min_accuracy cs)"
  by (simp add: min_accuracy_def)

lemma first_position_Cons:
  "first_position m (c # cs) = (if accuracy c = m then 0 else Suc (first_position m cs))"
  by (simp add: first_position_def)

lemma first_position_less:
  "m \<in> accuracy ` set cs \<Longrightarrow> first_position m cs < length cs"
  by (induction cs) (auto simp: first_position_Cons)

lemma first_position_nth:
  "m \<in> accuracy ` set cs \<Longrightarrow> accuracy (cs ! first_position m cs) = m"
  by (induction cs) (auto simp: first_position_Cons)

lemma first_position_first:
  "i < first_position m cs \<Longrightarrow> accuracy (cs ! i) \<noteq> m"
proof (induction cs arbitrary: i)
  case Nil
  then show ?case by (simp add: first_position_def)
next
  case (Cons c cs)
  then show ?case by (cases i) (auto simp: first_position_Cons split: if_splits)
qed

lemma first_position_append_in:
  "m \<in> accuracy ` set cs \<Longrightarrow> first_position m (cs @ [b]) = first_position m cs"
  by (induction cs) (auto simp: first_position_Cons)

lemma first_position_append_new:
  "m \<notin> accuracy ` set cs \<Longrightarrow> first_position m (cs @ [b]) = length cs + first_position m [b]"
  by (induction cs) (auto simp: first_position_Cons)

lemma worst_scan:
  "fold (\<lambda>(c, classifier) (min_acc, min_acc_idx).
             if accuracy classifier < min_acc then (accuracy classifier, int c)
             else (min_acc, min_acc_idx))
        (enumerate n cs) (m0, j0) =
   (fold min (map accuracy cs) m0,
    if fold min (map accuracy cs) m0 < m0
    then int (n + first_position (fold min (map accuracy cs) m0) cs) else j0)"
proof (induction cs arbitrary: n m0 j0)
  case Nil
  then show ?case by simp
next
  case (Cons c cs)
  show ?case
  proof (cases "accuracy c < m0")
    case True
    then have m: "min (accuracy c) m0 = accuracy c" by simp
    have le: "fold min (map accuracy cs) (accuracy c) \<le> accuracy c" by (rule fold_min_le)
    show ?thesis
    proof (cases "fold min (map accuracy cs) (accuracy c) < accuracy c")
      case lt: True
      then show ?thesis using True by (simp add: Cons.IH m first_position_Cons)
    next
      case False
      then have "fold min (map accuracy cs) (accuracy c) = accuracy c" using le by simp
      then show ?thesis using True by (simp add: Cons.IH m first_position_Cons)
    qed
  next
    case False
    then have m: "min (accuracy c) m0 = m0" by simp
    have le: "fold min (map accuracy cs) m0 \<le> m0" by (rule fold_min_le)
    show ?thesis using False le by (auto simp: Cons.IH m first_position_Cons)
  qed
qed

lemma worst_ensemble_acc_eq:
  "worst_ensemble_acc self =
     (min_accuracy (classifiers self),
      if min_accuracy (classifiers self) < 1
      then int (first_position (min_accuracy (classifiers self)) (classifiers self)) else - 1)"
  by (simp add: worst_ensemble_acc_def worst_scan min_accuracy_def)

section \<open>Retaining a scored candidate\<close>

lemma setitem_nat:
  "p < length xs \<Longrightarrow> setitem xs (int p) v = Inr (xs[p := v])"
  by (simp add: setitem_def Let_def)

lemma search_inv_position:
  assumes "search_inv s" and "lowest_acc s < 1"
  shows "lowest_acc_idx s = int (first_position (min_accuracy (classifiers (this s))) (classifiers (this s)))"
    and "first_position (min_accuracy (classifiers (this s))) (classifiers (this s))
           < length (classifiers (this s))"
    and "length (weights (this s)) = length (classifiers (this s))"
proof -
  have l: "lowest_acc s = min_accuracy (classifiers (this s))"
    using assms(1) by (simp add: search_inv_def Let_def)
  show "lowest_acc_idx s = int (first_position (min_accuracy (classifiers (this s))) (classifiers (this s)))"
    using assms by (simp add: search_inv_def Let_def)
  show "first_position (min_accuracy (classifiers (this s))) (classifiers (this s))
           < length (classifiers (this s))"
    using assms(2) l by (simp add: first_position_less min_accuracy_attained)
  show "length (weights (this s)) = length (classifiers (this s))"
    using assms(1) by (simp add: search_inv_def Let_def)
qed

lemma retain_replace:
  assumes inv: "search_inv s"
    and full: "\<not> int (num_classifiers s) < max_ensemble_size (this s)"
    and gt: "lowest_acc s < accuracy b" and le1: "accuracy b \<le> 1"
  shows "retain s b w =
     Inr (s\<lparr>this := (this s)\<lparr>weights := (weights (this s))
                               [first_position (min_accuracy (classifiers (this s))) (classifiers (this s)) := w],
                           classifiers := (classifiers (this s))
                               [first_position (min_accuracy (classifiers (this s))) (classifiers (this s)) := b]\<rparr>,
            lowest_acc := min_accuracy ((classifiers (this s))
                               [first_position (min_accuracy (classifiers (this s))) (classifiers (this s)) := b]),
            lowest_acc_idx :=
              (if min_accuracy ((classifiers (this s))
                     [first_position (min_accuracy (classifiers (this s))) (classifiers (this s)) := b]) < 1
               then int (first_position
                      (min_accuracy ((classifiers (this s))
                         [first_position (min_accuracy (classifiers (this s))) (classifiers (this s)) := b]))
                      ((classifiers (this s))
                         [first_position (min_accuracy (classifiers (this s))) (classifiers (this s)) := b]))
               else - 1)\<rparr>)"
proof -
  have lt: "lowest_acc s < 1" using gt le1 by simp
  note pos = search_inv_position[OF inv lt]
  show ?thesis
    using full gt pos(2)
    by (simp add: retain_def Let_def pos(1) pos(3) setitem_nat worst_ensemble_acc_eq)
qed

lemma retain_drop:
  assumes "\<not> int (num_classifiers s) < max_ensemble_size (this s)"
    and "\<not> lowest_acc s < accuracy b"
  shows "retain s b w = Inr s"
  using assms by (simp add: retain_def Let_def)

lemma retain_warm_up:
  assumes "int (num_classifiers s) < max_ensemble_size (this s)"
  shows "retain s b w =
     Inr (s\<lparr>lowest_acc := (if accuracy b < lowest_acc s then accuracy b else lowest_acc s),
            lowest_acc_idx := (if accuracy b < lowest_acc s then int (num_classifiers s)
                               else lowest_acc_idx s),
            this := (this s)\<lparr>weights := weights (this s) @ [w],
                              classifiers := classifiers (this s) @ [b]\<rparr>\<rparr>)"
  using assms by (simp add: retain_def Let_def)

section \<open>What the loop keeps true\<close>

lemma list_all_update:
  "list_all P xs \<Longrightarrow> P v \<Longrightarrow> list_all P (xs[i := v])"
  by (metis (full_types) insertE list_all_iff set_update_subset_insert subsetD)

lemma retain_inv:
  assumes inv: "search_inv s" and le1: "accuracy b \<le> 1"
    and ret: "retain s b (weight_of (accuracy b)) = Inr s1"
  shows "search_inv (s1\<lparr>num_classifiers := num_classifiers s1 + 1, train_time := t\<rparr>)"
proof (cases "int (num_classifiers s) < max_ensemble_size (this s)")
  case True
  let ?cs = "classifiers (this s)"
  have s1: "s1 = s\<lparr>lowest_acc := (if accuracy b < lowest_acc s then accuracy b else lowest_acc s),
            lowest_acc_idx := (if accuracy b < lowest_acc s then int (num_classifiers s)
                               else lowest_acc_idx s),
            this := (this s)\<lparr>weights := weights (this s) @ [weight_of (accuracy b)],
                              classifiers := ?cs @ [b]\<rparr>\<rparr>"
    using ret retain_warm_up[OF True] by simp
  have len: "length ?cs = num_classifiers s"
    using inv True by (simp add: search_inv_def Let_def)
  have low: "lowest_acc s = min_accuracy ?cs"
    using inv by (simp add: search_inv_def Let_def)
  have w: "weights (this s) = map (\<lambda>c. weight_of (accuracy c)) ?cs"
    and all: "list_all (\<lambda>c. accuracy c \<le> 1) ?cs"
    using inv by (simp_all add: search_inv_def Let_def)
  have idx: "lowest_acc s < 1 \<Longrightarrow> lowest_acc_idx s = int (first_position (lowest_acc s) ?cs)"
    using inv by (simp add: search_inv_def Let_def)
  show ?thesis
  proof (cases "accuracy b < lowest_acc s")
    case lt: True
    have notin: "accuracy b \<notin> accuracy ` set ?cs"
    proof
      assume "accuracy b \<in> accuracy ` set ?cs"
      then obtain c where "c \<in> set ?cs" "accuracy c = accuracy b" by auto
      then have "min_accuracy ?cs \<le> accuracy b" using min_accuracy_le[of c ?cs] by simp
      then show False using lt low by simp
    qed
    have fp: "first_position (accuracy b) (?cs @ [b]) = length ?cs"
      using first_position_append_new[OF notin, of b] by (simp add: first_position_Cons)
    show ?thesis using lt True
      by (auto simp: search_inv_def Let_def s1 w all le1 min_accuracy_append low[symmetric] fp len)
  next
    case ge: False
    have fp: "lowest_acc s < 1 \<Longrightarrow>
        first_position (lowest_acc s) (?cs @ [b]) = first_position (lowest_acc s) ?cs"
      using first_position_append_in[of "lowest_acc s" ?cs b] min_accuracy_attained[of ?cs] low
      by simp
    show ?thesis using ge True idx
      by (auto simp: search_inv_def Let_def s1 w all le1 min_accuracy_append low[symmetric] fp len
            min_def)
  qed
next
  case full: False
  show ?thesis
  proof (cases "lowest_acc s < accuracy b")
    case True
    let ?cs = "classifiers (this s)"
    let ?p = "first_position (min_accuracy ?cs) ?cs"
    have w: "weights (this s) = map (\<lambda>c. weight_of (accuracy c)) ?cs"
      and all: "list_all (\<lambda>c. accuracy c \<le> 1) ?cs"
      using inv by (simp_all add: search_inv_def Let_def)
    have len: "length ?cs = nat (max_ensemble_size (this s))"
      using inv full by (simp add: search_inv_def Let_def)
    have all': "list_all (\<lambda>c. accuracy c \<le> 1) (?cs[?p := b])"
      using all le1 by (rule list_all_update)
    have s1: "s1 = s\<lparr>this := (this s)\<lparr>weights := (weights (this s))[?p := weight_of (accuracy b)],
                           classifiers := ?cs[?p := b]\<rparr>,
            lowest_acc := min_accuracy (?cs[?p := b]),
            lowest_acc_idx :=
              (if min_accuracy (?cs[?p := b]) < 1
               then int (first_position (min_accuracy (?cs[?p := b])) (?cs[?p := b]))
               else - 1)\<rparr>"
      using ret retain_replace[OF inv full True le1] by simp
    show ?thesis using full
      by (auto simp: search_inv_def Let_def s1 w all' map_update len)
  next
    case False
    have "s1 = s" using ret retain_drop[OF full False] by simp
    then show ?thesis using inv full by (auto simp: search_inv_def Let_def)
  qed
qed

lemma retain_inv_step:
  assumes "retain s0 b (weight_of a) = Inr s2" and "accuracy b = a" and "a \<le> 1"
    and "search_inv s0"
  shows "search_inv (s2\<lparr>num_classifiers := Suc (num_classifiers s2), train_time := t\<rparr>)"
  using retain_inv[of s0 b s2 t] assms by simp

lemma search_inv_locals [simp]:
  "search_inv (s\<lparr>possible_parameters := rest, rng_state := g\<rparr>) = search_inv s"
  by (simp add: search_inv_def)

lemma search_step_inv:
  assumes "search_inv s" and "search_step E X y k s = Inr s1"
  shows "search_inv s1"
  using assms
  by (auto simp: search_step_def Let_def split: sum.splits prod.splits
           dest: individual_train_acc_le_1 intro!: retain_inv_step)

lemma search_loop_inv:
  "search_inv s \<Longrightarrow> search_loop E X y tlim k s = Inr s' \<Longrightarrow> search_inv s'"
  by (rule search_loop_invariant[where P = search_inv]) (auto intro: search_step_inv)

section \<open>Facts about a completed fit\<close>

lemma retain_frame: "retain s b w = Inr s1 \<Longrightarrow> frame (this s1) = frame (this s)"
  by (auto simp: retain_def Let_def frame_def split: if_splits sum.splits prod.splits)

lemma search_step_frame: "search_step E X y k s = Inr s1 \<Longrightarrow> frame (this s1) = frame (this s)"
  by (auto simp: search_step_def Let_def split: sum.splits prod.splits dest!: retain_frame)

lemma search_loop_frame:
  assumes "search_loop E X y tlim k s = Inr s'"
  shows "frame (this s') = frame (this s)"
  by (rule search_loop_invariant[where P = "\<lambda>u. frame (this u) = frame (this s)", OF _ _ assms])
     (auto dest: search_step_frame)

lemma fit_search_cases:
  assumes "fit_search E self X y = Inr s"
  obtains time_limit subsample_size s0 where
    "fit_setup E self X y = Inr (time_limit, subsample_size, s0)"
    and "search_loop E X y time_limit subsample_size s0 = Inr s"
  using assms by (auto simp: fit_search_def split: sum.splits)

lemma fit_cases:
  assumes "fit E self X y = Inr st"
  obtains s where "fit_search E self X y = Inr s"
    and "st = (this s)\<lparr>n_estimators := length (classifiers (this s)),
                        weight_sum := sum_list (weights (this s))\<rparr>"
  using assms by (auto simp: fit_def split: sum.splits)

lemma fit_setup_inv:
  "fit_setup E self X y = Inr (time_limit, subsample_size, s0) \<Longrightarrow> search_inv s0"
  by (auto simp: fit_setup_def Let_def search_inv_def min_accuracy_def
           split: sum.splits if_splits)

lemma fit_search_inv: "fit_search E self X y = Inr s \<Longrightarrow> search_inv s"
  by (erule fit_search_cases) (auto dest: fit_setup_inv search_loop_inv)

section \<open>The weights of the retained members\<close>


text \<open>
  Claim C5. In every fitted ensemble the stored weight of each retained member is
  \<open>accuracy ^ 4\<close> when the member's estimated accuracy is strictly positive and the
  floor constant \<open>1e-9\<close> otherwise, whether the member was appended during warm-up or
  installed by a replacement; the two lists have the same length.
\<close>

theorem fit_member_weights:
  assumes "fit E self X y = Inr st"
  shows "length (weights st) = length (classifiers st) \<and>
         (\<forall>i < length (classifiers st).
            weights st ! i =
              (if accuracy (classifiers st ! i) > 0 then accuracy (classifiers st ! i) ^ 4
               else 1 / 10 ^ 9))"
proof -
  from assms obtain s where s: "fit_search E self X y = Inr s"
    and st: "st = (this s)\<lparr>n_estimators := length (classifiers (this s)),
                        weight_sum := sum_list (weights (this s))\<rparr>"
    by (rule fit_cases)
  have "weights (this s) = map (\<lambda>c. weight_of (accuracy c)) (classifiers (this s))"
    using fit_search_inv[OF s] by (simp add: search_inv_def Let_def)
  then show ?thesis by (simp add: st weight_of_def)
qed

theorem fit_member_weights_witness:
  "(case fit ex_env (init 3 2 1 4 0 1 0) ex_panel ex_labels of
      Inl e \<Rightarrow> False
    | Inr st \<Rightarrow>
        map accuracy (classifiers st) = [4 / 5, 3 / 5] \<and>
        length (weights st) = 2 \<and> weights st ! 0 = (4 / 5) ^ 4 \<and> weights st ! 1 = (3 / 5) ^ 4)
   \<and>
   (case fit ex_env (init 2 2 1 4 0 1 0) ex_panel ex_labels of
      Inl e \<Rightarrow> False
    | Inr st \<Rightarrow>
        map accuracy (classifiers st) = [0, 3 / 5] \<and>
        length (weights st) = 2 \<and> weights st ! 0 = 1 / 10 ^ 9 \<and> weights st ! 1 = (3 / 5) ^ 4)"
proof -
  have a: "map_sum id (\<lambda>st. map accuracy (classifiers st))
             (fit ex_env (init 3 2 1 4 0 1 0) ex_panel ex_labels) = Inr [4 / 5, 3 / 5]"
    by code_simp
  then obtain st where st: "fit ex_env (init 3 2 1 4 0 1 0) ex_panel ex_labels = Inr st"
    and acc: "map accuracy (classifiers st) = [4 / 5, 3 / 5]"
    by (cases "fit ex_env (init 3 2 1 4 0 1 0) ex_panel ex_labels") auto
  have b: "map_sum id (\<lambda>st. map accuracy (classifiers st))
             (fit ex_env (init 2 2 1 4 0 1 0) ex_panel ex_labels) = Inr [0, 3 / 5]"
    by code_simp
  then obtain st' where st': "fit ex_env (init 2 2 1 4 0 1 0) ex_panel ex_labels = Inr st'"
    and acc': "map accuracy (classifiers st') = [0, 3 / 5]"
    by (cases "fit ex_env (init 2 2 1 4 0 1 0) ex_panel ex_labels") auto
  have l: "length (classifiers st) = 2" "accuracy (classifiers st ! 0) = 4 / 5"
      "accuracy (classifiers st ! Suc 0) = 3 / 5"
    using acc by (auto simp: map_eq_Cons_conv)
  have l': "length (classifiers st') = 2" "accuracy (classifiers st' ! 0) = 0"
      "accuracy (classifiers st' ! Suc 0) = 3 / 5"
    using acc' by (auto simp: map_eq_Cons_conv)
  have W: "i < length (classifiers st) \<Longrightarrow> weights st ! i =
              (if accuracy (classifiers st ! i) > 0 then accuracy (classifiers st ! i) ^ 4
               else 1 / 10 ^ 9)" for i
    using fit_member_weights[OF st] by blast
  have W': "i < length (classifiers st') \<Longrightarrow> weights st' ! i =
              (if accuracy (classifiers st' ! i) > 0 then accuracy (classifiers st' ! i) ^ 4
               else 1 / 10 ^ 9)" for i
    using fit_member_weights[OF st'] by blast
  have L: "length (weights st) = 2" "length (weights st') = 2"
    using fit_member_weights[OF st] fit_member_weights[OF st'] by (simp_all add: l l')
  have "weights st ! 0 = (4 / 5) ^ 4" "weights st ! 1 = (3 / 5) ^ 4"
    using W[of 0] W[of 1] by (simp_all add: l)
  moreover have "weights st' ! 0 = 1 / 10 ^ 9" "weights st' ! 1 = (3 / 5) ^ 4"
    using W'[of 0] W'[of 1] by (simp_all add: l')
  ultimately show ?thesis
    by (simp add: st st' acc acc' L)
qed

section \<open>Replacement at capacity\<close>

text \<open>
  Claim C2, amended. Once the ensemble holds \<open>max_ensemble_size\<close> members, a newly
  scored candidate is retained if and only if its accuracy strictly exceeds the current
  minimum retained accuracy; on retention it overwrites the member and the weight at the
  first position of that minimum, and the new minimum and position come from a full scan
  that starts at \<open>(1, -1)\<close> and moves only to a strictly smaller accuracy: it yields the
  minimum and the first position attaining it when some accuracy is below 1, and
  \<open>(1, -1)\<close> when none is. The witness is the scenario of the claim: one member of
  accuracy 0.6, a candidate of accuracy 0.8, and the weight sum \<open>0.8 ^ 4\<close>, on the state
  of the loop and through a whole \<^verbatim>\<open>_fit\<close>.
\<close>

theorem retain_at_capacity:
  assumes "search_inv s"
    and "int (length (classifiers (this s))) = max_ensemble_size (this s)"
    and "accuracy b \<le> 1"
  shows "retain s b w =
     (let cs = classifiers (this s);
          p = first_position (min_accuracy cs) cs;
          cs' = cs[p := b]
      in if min_accuracy cs < accuracy b
         then Inr (s\<lparr>this := (this s)\<lparr>weights := (weights (this s))[p := w],
                                       classifiers := cs'\<rparr>,
                      lowest_acc := min_accuracy cs',
                      lowest_acc_idx :=
                        (if min_accuracy cs' < 1
                         then int (first_position (min_accuracy cs') cs') else - 1)\<rparr>)
         else Inr s)"
proof -
  have low: "lowest_acc s = min_accuracy (classifiers (this s))"
    using assms(1) by (simp add: search_inv_def Let_def)
  have full: "\<not> int (num_classifiers s) < max_ensemble_size (this s)"
    using assms(1,2) by (auto simp: search_inv_def Let_def split: if_splits)
  show ?thesis
  proof (cases "min_accuracy (classifiers (this s)) < accuracy b")
    case True
    then have "lowest_acc s < accuracy b" using low by simp
    from retain_replace[OF assms(1) full this assms(3)] True show ?thesis
      by (simp add: Let_def)
  next
    case False
    then have "\<not> lowest_acc s < accuracy b" using low by simp
    from retain_drop[OF full this] False show ?thesis by (simp add: Let_def)
  qed
qed

lemma ex_search_inv: "search_inv ex_search"
  by (simp add: search_inv_def ex_search_def init_def ex_member_def min_accuracy_def
        first_position_def Let_def)

theorem retain_at_capacity_witness:
  "search_inv ex_search
   \<and> int (length (classifiers (this ex_search))) = max_ensemble_size (this ex_search)
   \<and> accuracy (ex_member (4 / 5)) \<le> 1
   \<and> map_sum id (\<lambda>s. (map accuracy (classifiers (this s)), weights (this s),
                        sum_list (weights (this s)), lowest_acc s, lowest_acc_idx s))
       (retain ex_search (ex_member (4 / 5)) (weight_of (4 / 5)))
       = Inr ([4 / 5], [(4 / 5) ^ 4], (4 / 5) ^ 4, 4 / 5, 0)
   \<and> map_sum id (\<lambda>st. (map accuracy (classifiers st), weight_sum st))
       (fit ex_env (init 3 1 1 4 0 1 0) ex_panel ex_labels) = Inr ([4 / 5], (4 / 5) ^ 4)"
proof -
  have 1: "int (length (classifiers (this ex_search))) = max_ensemble_size (this ex_search)"
    by (simp add: ex_search_def init_def)
  have 2: "accuracy (ex_member (4 / 5)) \<le> 1" by (simp add: ex_member_def)
  have 3: "map_sum id (\<lambda>s. (map accuracy (classifiers (this s)), weights (this s),
                        sum_list (weights (this s)), lowest_acc s, lowest_acc_idx s))
       (retain ex_search (ex_member (4 / 5)) (weight_of (4 / 5)))
       = Inr ([4 / 5], [(4 / 5) ^ 4], (4 / 5) ^ 4, 4 / 5, 0)"
    unfolding retain_at_capacity[OF ex_search_inv 1 2]
    by (simp add: ex_search_def init_def ex_member_def min_accuracy_def
        first_position_def Let_def weight_of_def)
  have 4: "map_sum id (\<lambda>st. (map accuracy (classifiers st), weight_sum st))
       (fit ex_env (init 3 1 1 4 0 1 0) ex_panel ex_labels) = Inr ([4 / 5], (4 / 5) ^ 4)"
    by code_simp
  show ?thesis using ex_search_inv 1 2 3 4 by blast
qed

text \<open>
  The claim as stated fails where every retained accuracy is 1. In an ensemble of two
  holding accuracies 0.8 and 1, a candidate of accuracy 1 replaces the first member; the
  two members then tie at the minimum 1, whose first position is 0, and the scan returns
  the position \<open>-1\<close>. A whole \<^verbatim>\<open>_fit\<close> over nine candidates ends in the same state.
\<close>

theorem scan_position_counterexample:
  "map_sum id (\<lambda>s. (map accuracy (classifiers (this s)), lowest_acc s, lowest_acc_idx s,
                     first_position (lowest_acc s) (classifiers (this s))))
     (retain ex_search_tie (ex_member 1) (weight_of 1)) = Inr ([1, 1], 1, - 1, 0)
   \<and> map_sum id (\<lambda>s. (map accuracy (classifiers (this s)), lowest_acc s, lowest_acc_idx s,
                     first_position (lowest_acc s) (classifiers (this s))))
     (fit_search ex_env (init 9 2 1 4 0 1 0) ex_panel ex_labels) = Inr ([1, 1], 1, - 1, 0)"
proof -
  have "map_sum id (\<lambda>s. (map accuracy (classifiers (this s)), lowest_acc s, lowest_acc_idx s,
                     first_position (lowest_acc s) (classifiers (this s))))
     (retain ex_search_tie (ex_member 1) (weight_of 1)) = Inr ([1, 1], 1, - 1, 0)"
    by code_simp
  moreover have "map_sum id (\<lambda>s. (map accuracy (classifiers (this s)), lowest_acc s, lowest_acc_idx s,
                     first_position (lowest_acc s) (classifiers (this s))))
     (fit_search ex_env (init 9 2 1 4 0 1 0) ex_panel ex_labels) = Inr ([1, 1], 1, - 1, 0)"
    by code_simp
  ultimately show ?thesis by blast
qed

section \<open>Weighted voting\<close>

lemma length_bump [simp]: "length (bump row k w) = length row"
  by (simp add: bump_def)

lemma nth_bump: "k' < length row \<Longrightarrow> bump row k w ! k' = row ! k' + (if k' = k then w else 0)"
  by (simp add: bump_def nth_list_update)

lemma add_at_bump:
  "i < length tot \<Longrightarrow> k < length (tot ! i) \<Longrightarrow> add_at tot i k w = Inr (tot[i := bump (tot ! i) k w])"
  by (simp add: add_at_def bump_def)

lemma vote_rows_result:
  assumes "getitem (weights self) n = Inr w"
  shows "distinct is \<Longrightarrow>
    (\<And>i. i \<in> set is \<Longrightarrow> i < length tot \<and> i < length preds \<and>
        (\<exists>k. class_dictionary self (preds ! i) = Some k \<and> k < length (tot ! i))) \<Longrightarrow>
    \<exists>tot'. vote_rows self preds n is tot = Inr tot' \<and> length tot' = length tot \<and>
      (\<forall>i < length tot. tot' ! i =
         (if i \<in> set is then bump (tot ! i) (the (class_dictionary self (preds ! i))) w
          else tot ! i))"
proof (induction "is" arbitrary: tot)
  case Nil
  then show ?case by simp
next
  case (Cons i "is")
  from Cons.prems(2)[of i] obtain k where
    i: "i < length tot" "i < length preds" and k: "class_dictionary self (preds ! i) = Some k"
    and kl: "k < length (tot ! i)" by auto
  let ?tot1 = "tot[i := bump (tot ! i) k w]"
  have step: "vote_rows self preds n (i # is) tot = vote_rows self preds n is ?tot1"
    using i k kl assms by (simp add: getitem_def add_at_bump)
  have d: "distinct is" and ni: "i \<notin> set is" using Cons.prems(1) by simp_all
  have pre: "j < length ?tot1 \<and> j < length preds \<and>
        (\<exists>k. class_dictionary self (preds ! j) = Some k \<and> k < length (?tot1 ! j))"
    if "j \<in> set is" for j
    using Cons.prems(2)[of j] that i(1) by (cases "j = i") (auto simp: nth_list_update)
  from Cons.IH[OF d pre] obtain tot' where
    r: "vote_rows self preds n is ?tot1 = Inr tot'" and l: "length tot' = length ?tot1"
    and v: "\<forall>j < length ?tot1. tot' ! j =
         (if j \<in> set is then bump (?tot1 ! j) (the (class_dictionary self (preds ! j))) w
          else ?tot1 ! j)"
    by blast
  have "tot' ! j = (if j \<in> set (i # is)
                   then bump (tot ! j) (the (class_dictionary self (preds ! j))) w
                   else tot ! j)" if "j < length tot" for j
  proof (cases "j = i")
    case True
    then show ?thesis using v that ni k by simp
  next
    case False
    then show ?thesis using v that by simp
  qed
  then show ?case using step r l by simp
qed


lemma vote_rows_all:
  assumes w: "getitem (weights self) n = Inr w"
    and len: "length tot = length xs"
    and known: "\<And>i. i < length xs \<Longrightarrow>
        \<exists>k. class_dictionary self (predict clf (xs ! i)) = Some k \<and> k < length (tot ! i)"
  shows "\<exists>tot'. vote_rows self (map (predict clf) xs) n [0..<length xs] tot = Inr tot' \<and>
      length tot' = length xs \<and>
      (\<forall>i < length xs. tot' ! i =
         bump (tot ! i) (the (class_dictionary self (predict clf (xs ! i)))) w)"
proof -
  have pre: "i < length tot \<and> i < length (map (predict clf) xs) \<and>
        (\<exists>k. class_dictionary self (map (predict clf) xs ! i) = Some k \<and> k < length (tot ! i))"
    if "i \<in> set [0..<length xs]" for i
    using that known[of i] len by simp
  have d: "distinct [0..<length xs]" by simp
  from vote_rows_result[OF w d pre] obtain tot' where
    r: "vote_rows self (map (predict clf) xs) n [0..<length xs] tot = Inr tot'"
    and l: "length tot' = length tot"
    and v: "\<forall>i < length tot. tot' ! i =
         (if i \<in> set [0..<length xs]
          then bump (tot ! i) (the (class_dictionary self (map (predict clf) xs ! i))) w
          else tot ! i)"
    by blast
  have "tot' ! i = bump (tot ! i) (the (class_dictionary self (predict clf (xs ! i)))) w"
    if "i < length xs" for i
    using v that len by simp
  then show ?thesis using r l len by simp
qed


lemma vote_members_result:
  assumes known: "\<forall>clf \<in> set cs. \<forall>x \<in> set (cases X).
                    \<exists>k < C. class_dictionary self (predict clf x) = Some k"
  shows "n + length cs \<le> length (weights self) \<Longrightarrow>
    length tot = length (cases X) \<Longrightarrow>
    \<forall>i < length (cases X). length (tot ! i) = C \<Longrightarrow>
    \<exists>tot'. vote_members self X (enumerate n cs) tot = Inr tot' \<and>
      length tot' = length (cases X) \<and>
      (\<forall>i < length (cases X). length (tot' ! i) = C \<and>
         (\<forall>k < C. tot' ! i ! k =
            tot ! i ! k + sum_list (map (vote self (cases X ! i) k)
                                     (zip (drop n (weights self)) cs))))"
  using known
proof (induction cs arbitrary: n tot)
  case Nil
  then show ?case by simp
next
  case (Cons clf cs)
  let ?xs = "cases X"
  let ?w = "weights self ! n"
  have nl: "n < length (weights self)" using Cons.prems(1) by simp
  have w: "getitem (weights self) n = Inr ?w" using nl by (simp add: getitem_def)
  have kn: "\<exists>k. class_dictionary self (predict clf (?xs ! i)) = Some k \<and> k < length (tot ! i)"
    if "i < length ?xs" for i
  proof -
    have "?xs ! i \<in> set ?xs" using that by simp
    then obtain k where "k < C" "class_dictionary self (predict clf (?xs ! i)) = Some k"
      using Cons.prems(4) by auto
    then show ?thesis using Cons.prems(3) that by auto
  qed
  from vote_rows_all[OF w Cons.prems(2) kn] obtain tot1 where
    r1: "vote_rows self (map (predict clf) ?xs) n [0..<length ?xs] tot = Inr tot1"
    and l1: "length tot1 = length ?xs"
    and v1: "\<forall>i < length ?xs. tot1 ! i =
         bump (tot ! i) (the (class_dictionary self (predict clf (?xs ! i)))) ?w"
    by blast
  have rows1: "\<forall>i < length ?xs. length (tot1 ! i) = C"
    using v1 Cons.prems(3) by simp
  have known': "\<forall>clf \<in> set cs. \<forall>x \<in> set ?xs.
                    \<exists>k < C. class_dictionary self (predict clf x) = Some k"
    using Cons.prems(4) by simp
  have le: "Suc n + length cs \<le> length (weights self)" using Cons.prems(1) by simp
  from Cons.IH[OF le l1 rows1 known'] obtain tot' where
    r: "vote_members self X (enumerate (Suc n) cs) tot1 = Inr tot'"
    and l: "length tot' = length ?xs"
    and v: "\<forall>i < length ?xs. length (tot' ! i) = C \<and>
         (\<forall>k < C. tot' ! i ! k =
            tot1 ! i ! k + sum_list (map (vote self (?xs ! i) k)
                                      (zip (drop (Suc n) (weights self)) cs)))"
    by blast
  have run: "vote_members self X (enumerate n (clf # cs)) tot = Inr tot'"
    using r1 r by simp
  have dr: "drop n (weights self) = ?w # drop (Suc n) (weights self)"
    using nl by (simp add: Cons_nth_drop_Suc)
  have val: "tot' ! i ! k =
            tot ! i ! k + sum_list (map (vote self (?xs ! i) k)
                                      (zip (drop n (weights self)) (clf # cs)))"
    if i: "i < length ?xs" and k: "k < C" for i k
  proof -
    have "?xs ! i \<in> set ?xs" using i by simp
    then obtain k0 where k0: "class_dictionary self (predict clf (?xs ! i)) = Some k0"
      using Cons.prems(4) by auto
    have kr: "k < length (tot ! i)" using Cons.prems(3) i k by simp
    have "tot1 ! i ! k = tot ! i ! k + (if k = k0 then ?w else 0)"
      using v1 i k0 kr by (simp add: nth_bump)
    also have "(if k = k0 then ?w else 0) = vote self (?xs ! i) k (?w, clf)"
      using k0 by (auto simp: vote_def)
    finally show ?thesis using v i k by (simp add: dr)
  qed
  show ?case using run l v val by blast
qed

section \<open>The class dictionary and the fitted attributes\<close>

lemma frame_fields:
  assumes "frame a = frame b"
  shows "n_classes a = n_classes b" "class_dictionary a = class_dictionary b"
    "classes a = classes b" "n_parameter_samples a = n_parameter_samples b"
    "max_ensemble_size a = max_ensemble_size b" "n_instances a = n_instances b"
    "n_jobs a = n_jobs b" "random_state a = random_state b"
proof -
  have f: "g (frame a) = g (frame b)" for g :: "cboss \<Rightarrow> 'a" using assms by simp
  show "n_classes a = n_classes b" using f[of n_classes] by (simp add: frame_def)
  show "class_dictionary a = class_dictionary b" using f[of class_dictionary] by (simp add: frame_def)
  show "classes a = classes b" using f[of classes] by (simp add: frame_def)
  show "n_parameter_samples a = n_parameter_samples b"
    using f[of n_parameter_samples] by (simp add: frame_def)
  show "max_ensemble_size a = max_ensemble_size b"
    using f[of max_ensemble_size] by (simp add: frame_def)
  show "n_instances a = n_instances b" using f[of n_instances] by (simp add: frame_def)
  show "n_jobs a = n_jobs b" using f[of n_jobs] by (simp add: frame_def)
  show "random_state a = random_state b" using f[of random_state] by (simp add: frame_def)
qed

lemma fold_dict_notin:
  assumes F: "\<And>index classVal d. F (index, classVal) d = d(classVal \<mapsto> index)"
  shows "c \<notin> set xs \<Longrightarrow> fold F (enumerate n xs) d c = d c"
  by (induction xs arbitrary: n d) (auto simp: F)

lemma fold_dict_nth:
  assumes F: "\<And>index classVal d. F (index, classVal) d = d(classVal \<mapsto> index)"
  shows "distinct xs \<Longrightarrow> i < length xs \<Longrightarrow>
         fold F (enumerate n xs) d (xs ! i) = Some (n + i)"
proof (induction xs arbitrary: n d i)
  case Nil
  then show ?case by simp
next
  case (Cons x xs)
  show ?case
  proof (cases i)
    case 0
    have "x \<notin> set xs" using Cons.prems(1) by simp
    from fold_dict_notin[of F, OF F this, of "Suc n" "d(x \<mapsto> n)"] 0 show ?thesis
      by (simp add: F)
  next
    case (Suc j)
    have "fold F (enumerate (Suc n) xs) (d(x \<mapsto> n)) (xs ! j) = Some (Suc n + j)"
      by (rule Cons.IH) (use Cons.prems Suc in simp_all)
    then show ?thesis by (simp add: Suc F)
  qed
qed

lemma fit_setup_classes:
  assumes "fit_setup E self X y = Inr (time_limit, subsample_size, s0)"
  shows "n_classes (this s0) = length (remdups y)"
    and "class_dictionary (this s0) =
           fold (\<lambda>(index, classVal) d. d(classVal \<mapsto> index))
             (enumerate 0 (sort (remdups y))) (class_dictionary self)"
    and "classes (this s0) = sort (remdups y)"
    and "n_instances (this s0) = length (cases X)"
  using assms
  by (auto simp: fit_setup_def Let_def split: sum.splits if_splits)

lemma fit_setup_known_labels:
  assumes "fit_setup E self X y = Inr (time_limit, subsample_size, s0)" and "l \<in> set y"
  shows "\<exists>k < n_classes (this s0). class_dictionary (this s0) l = Some k"
proof -
  let ?cl = "sort (remdups y)"
  have "l \<in> set ?cl" using assms(2) by simp
  then obtain i where i: "i < length ?cl" "?cl ! i = l" by (metis in_set_conv_nth)
  have "distinct ?cl" by simp
  have "fold (\<lambda>(index, classVal) d. d(classVal \<mapsto> index)) (enumerate 0 ?cl)
          (class_dictionary self) (?cl ! i) = Some (0 + i)"
    by (rule fold_dict_nth) (use i(1) in simp_all)
  then have "class_dictionary (this s0) l = Some i"
    using i(2) by (simp add: fit_setup_classes(2)[OF assms(1)])
  moreover have "i < n_classes (this s0)"
    using i(1) by (simp add: fit_setup_classes(1)[OF assms(1)])
  ultimately show ?thesis by blast
qed

lemma fit_facts:
  assumes "fit E self X y = Inr st"
  shows "weight_sum st = sum_list (weights st)"
    and "weights st = map (\<lambda>c. weight_of (accuracy c)) (classifiers st)"
    and "n_classes st = length (remdups y)"
    and "l \<in> set y \<Longrightarrow> \<exists>k < n_classes st. class_dictionary st l = Some k"
proof -
  from assms obtain s where s: "fit_search E self X y = Inr s"
    and st: "st = (this s)\<lparr>n_estimators := length (classifiers (this s)),
                        weight_sum := sum_list (weights (this s))\<rparr>"
    by (rule fit_cases)
  from s obtain time_limit subsample_size s0 where
    s0: "fit_setup E self X y = Inr (time_limit, subsample_size, s0)"
    and loop: "search_loop E X y time_limit subsample_size s0 = Inr s"
    by (rule fit_search_cases)
  note fr = frame_fields[OF search_loop_frame[OF loop]]
  show "weight_sum st = sum_list (weights st)" by (simp add: st)
  show "weights st = map (\<lambda>c. weight_of (accuracy c)) (classifiers st)"
    using fit_search_inv[OF s] by (simp add: search_inv_def Let_def st)
  show "n_classes st = length (remdups y)"
    using fr(1) fit_setup_classes(1)[OF s0] by (simp add: st)
  show "\<exists>k < n_classes st. class_dictionary st l = Some k" if "l \<in> set y"
    using fit_setup_known_labels[OF s0 that] fr(1,2) by (simp add: st)
qed

section \<open>Class probabilities for unseen series\<close>

lemma vote_sum_one:
  assumes "k0 < C" and "class_dictionary self (predict clf x) = Some k0"
  shows "sum_list (map (\<lambda>k. vote self x k (w, clf)) [0..<C]) = w"
proof -
  have "sum_list (map (\<lambda>k. vote self x k (w, clf)) [0..<C]) =
        (\<Sum>k \<in> set [0..<C]. if k = k0 then w else 0)"
    using assms(2) by (subst sum_list_distinct_conv_sum_set) (auto simp: vote_def intro: sum.cong)
  also have "\<dots> = w" using assms(1) by simp
  finally show ?thesis .
qed

lemma votes_total:
  "\<forall>(w, clf) \<in> set ps. \<exists>k < C. class_dictionary self (predict clf x) = Some k \<Longrightarrow>
   sum_list (map (\<lambda>k. sum_list (map (vote self x k) ps)) [0..<C]) = sum_list (map fst ps)"
proof (induction ps)
  case Nil
  then show ?case by simp
next
  case (Cons p ps)
  obtain w clf where p: "p = (w, clf)" by (cases p)
  obtain k0 where k0: "k0 < C" "class_dictionary self (predict clf x) = Some k0"
    using Cons.prems p by auto
  have "sum_list (map (\<lambda>k. sum_list (map (vote self x k) (p # ps))) [0..<C]) =
        sum_list (map (\<lambda>k. vote self x k (w, clf)) [0..<C]) +
        sum_list (map (\<lambda>k. sum_list (map (vote self x k) ps)) [0..<C])"
    by (simp add: p sum_list_addf)
  also have "\<dots> = w + sum_list (map fst ps)"
    using vote_sum_one[OF k0] Cons.IH Cons.prems by simp
  finally show ?case by (simp add: p)
qed

lemma sum_list_divide:
  "sum_list (map (\<lambda>k. f k / (c::rat)) ks) = sum_list (map f ks) / c"
  by (induction ks) (simp_all add: add_divide_distrib)

lemma class_score_total:
  assumes "length (weights self) = length (classifiers self)"
    and "\<forall>clf \<in> set (classifiers self). \<exists>k < C. class_dictionary self (predict clf x) = Some k"
  shows "sum_list (map (class_score self x) [0..<C]) = sum_list (weights self)"
proof -
  have "\<forall>(w, clf) \<in> set (zip (weights self) (classifiers self)).
          \<exists>k < C. class_dictionary self (predict clf x) = Some k"
    using assms(2) by (auto dest: set_zip_rightD)
  from votes_total[OF this] show ?thesis
    using assms(1) by (simp add: class_score_def[abs_def])
qed

text \<open>
  Claim C6. For a fitted ensemble whose stored weight sum is not zero, and members that
  predict labels of the training set, \<^verbatim>\<open>_predict_proba\<close> returns for every test series
  the row of per-class accumulated weights, each divided by the stored weight sum; the
  stored weight sum is the sum of the retained weights, so every row sums to 1.
\<close>

theorem predict_proba_rows:
  assumes fitted: "fit E self X y = Inr st"
    and nz: "weight_sum st \<noteq> 0"
    and known: "\<forall>clf \<in> set (classifiers st). \<forall>x \<in> set (cases T). predict clf x \<in> set y"
  shows "predict_proba st T =
           Inr (map (\<lambda>x. map (\<lambda>k. Fin (class_score st x k / weight_sum st)) [0..<n_classes st])
                    (cases T))
         \<and> weight_sum st = sum_list (weights st)
         \<and> (\<forall>x \<in> set (cases T).
               sum_list (map (\<lambda>k. class_score st x k / weight_sum st) [0..<n_classes st]) = 1)"
proof -
  let ?C = "n_classes st"
  let ?xs = "cases T"
  note ff = fit_facts[OF fitted]
  have len: "length (weights st) = length (classifiers st)" by (simp add: ff(2))
  have kn: "\<forall>clf \<in> set (classifiers st). \<forall>x \<in> set ?xs.
              \<exists>k < ?C. class_dictionary st (predict clf x) = Some k"
    using known ff(4) by blast
  let ?tot0 = "replicate (length ?xs) (replicate ?C (0::rat))"
  have "\<exists>tot'. vote_members st T (enumerate 0 (classifiers st)) ?tot0 = Inr tot' \<and>
      length tot' = length ?xs \<and>
      (\<forall>i < length ?xs. length (tot' ! i) = ?C \<and>
         (\<forall>k < ?C. tot' ! i ! k =
            ?tot0 ! i ! k + sum_list (map (vote st (?xs ! i) k)
                                     (zip (drop 0 (weights st)) (classifiers st)))))"
    by (rule vote_members_result[OF kn]) (simp_all add: len)
  then obtain tot' where
    run: "vote_members st T (enumerate 0 (classifiers st)) ?tot0 = Inr tot'"
    and l: "length tot' = length ?xs"
    and rows: "\<And>i. i < length ?xs \<Longrightarrow> length (tot' ! i) = ?C"
    and vals: "\<And>i k. i < length ?xs \<Longrightarrow> k < ?C \<Longrightarrow> tot' ! i ! k = class_score st (?xs ! i) k"
    by (auto simp: class_score_def)
  have row: "tot' ! i = map (class_score st (?xs ! i)) [0..<?C]" if "i < length ?xs" for i
    using rows[OF that] vals[OF that] by (simp add: list_eq_iff_nth_eq)
  have tab: "tot' = map (\<lambda>x. map (class_score st x) [0..<?C]) ?xs"
    using l row by (simp add: list_eq_iff_nth_eq)
  have "predict_proba st T =
          Inr (map (map (\<lambda>v. np_divide v (1 * weight_sum st))) tot')"
    using run by (simp add: predict_proba_def)
  also have "map (map (\<lambda>v. np_divide v (1 * weight_sum st))) tot' =
      map (\<lambda>x. map (\<lambda>k. Fin (class_score st x k / weight_sum st)) [0..<?C]) ?xs"
    using nz by (simp add: tab np_divide_def)
  finally have 1: "predict_proba st T =
           Inr (map (\<lambda>x. map (\<lambda>k. Fin (class_score st x k / weight_sum st)) [0..<?C]) ?xs)" .
  have 3: "sum_list (map (\<lambda>k. class_score st x k / weight_sum st) [0..<?C]) = 1"
    if "x \<in> set ?xs" for x
  proof -
    have "\<forall>clf \<in> set (classifiers st). \<exists>k < ?C. class_dictionary st (predict clf x) = Some k"
      using kn that by blast
    from class_score_total[OF len this] show ?thesis
      using nz ff(1) by (simp add: sum_list_divide)
  qed
  show ?thesis using 1 ff(1) 3 by blast
qed


theorem predict_proba_rows_witness:
  "(case fit ex_env (init 3 2 1 4 0 1 0) ex_panel ex_labels of
      Inl e \<Rightarrow> False
    | Inr st \<Rightarrow>
        weight_sum st = 337 / 625 \<and> n_classes st = 2 \<and>
        predict_proba st ex_panel =
          Inr (map (\<lambda>x. map (\<lambda>k. Fin (class_score st x k / weight_sum st)) [0..<n_classes st])
                   (cases ex_panel)) \<and>
        predict_proba st ex_panel =
          Inr [[Fin 1, Fin 0], [Fin 0, Fin 1], [Fin 1, Fin 0], [Fin 0, Fin 1],
               [Fin 1, Fin 0], [Fin 0, Fin 1], [Fin 1, Fin 0], [Fin 0, Fin 1]] \<and>
        sum_list (map (\<lambda>k. class_score st [0, 0, 0, 1] k / weight_sum st)
                      [0..<n_classes st]) = 1)"
proof -
  have "map_sum id
          (\<lambda>st. (weight_sum st, n_classes st,
                  list_all (\<lambda>clf. list_all (\<lambda>x. predict clf x \<in> set ex_labels)
                                     (cases ex_panel)) (classifiers st),
                  predict_proba st ex_panel))
          (fit ex_env (init 3 2 1 4 0 1 0) ex_panel ex_labels) =
        Inr (337 / 625, 2, True,
             Inr [[Fin 1, Fin 0], [Fin 0, Fin 1], [Fin 1, Fin 0], [Fin 0, Fin 1],
                  [Fin 1, Fin 0], [Fin 0, Fin 1], [Fin 1, Fin 0], [Fin 0, Fin 1]])"
    by code_simp
  then obtain st where st: "fit ex_env (init 3 2 1 4 0 1 0) ex_panel ex_labels = Inr st"
    and ws: "weight_sum st = 337 / 625" and nc: "n_classes st = 2"
    and kn: "list_all (\<lambda>clf. list_all (\<lambda>x. predict clf x \<in> set ex_labels)
                                     (cases ex_panel)) (classifiers st)"
    and pp: "predict_proba st ex_panel =
          Inr [[Fin 1, Fin 0], [Fin 0, Fin 1], [Fin 1, Fin 0], [Fin 0, Fin 1],
               [Fin 1, Fin 0], [Fin 0, Fin 1], [Fin 1, Fin 0], [Fin 0, Fin 1]]"
    by (cases "fit ex_env (init 3 2 1 4 0 1 0) ex_panel ex_labels") auto
  have nz: "weight_sum st \<noteq> 0" by (simp add: ws)
  have known: "\<forall>clf \<in> set (classifiers st). \<forall>x \<in> set (cases ex_panel).
                 predict clf x \<in> set ex_labels"
    using kn by (simp add: list_all_iff)
  have mem: "[0, 0, 0, 1] \<in> set (cases ex_panel)" by (simp add: ex_panel_def)
  from predict_proba_rows[OF st nz known] mem
  have "predict_proba st ex_panel =
          Inr (map (\<lambda>x. map (\<lambda>k. Fin (class_score st x k / weight_sum st)) [0..<n_classes st])
                   (cases ex_panel))"
    and "sum_list (map (\<lambda>k. class_score st [0, 0, 0, 1] k / weight_sum st)
                      [0..<n_classes st]) = 1"
    by blast+
  with ws nc pp have
    "weight_sum st = 337 / 625 \<and> n_classes st = 2 \<and>
        predict_proba st ex_panel =
          Inr (map (\<lambda>x. map (\<lambda>k. Fin (class_score st x k / weight_sum st)) [0..<n_classes st])
                   (cases ex_panel)) \<and>
        predict_proba st ex_panel =
          Inr [[Fin 1, Fin 0], [Fin 0, Fin 1], [Fin 1, Fin 0], [Fin 0, Fin 1],
               [Fin 1, Fin 0], [Fin 0, Fin 1], [Fin 1, Fin 0], [Fin 0, Fin 1]] \<and>
        sum_list (map (\<lambda>k. class_score st [0, 0, 0, 1] k / weight_sum st)
                      [0..<n_classes st]) = 1"
    by blast
  then show ?thesis unfolding st sum.case .
qed

section \<open>Class probabilities for the training instances\<close>












section \<open>The search contract\<close>







section \<open>Determinism\<close>












section \<open>The configuration error\<close>













section \<open>The empty window range\<close>









section \<open>A fit that returns\<close>

lemma individual_train_acc_returns:
  assumes "0 < S" and "S \<le> length y"
  shows "\<exists>a n. individual_train_acc jobs b y S la = Inr (a, n)"
proof -
  have c0: "correct_upto b y 0 = 0" by (simp add: correct_upto_def)
  have seq: "\<exists>a n. seq_loop b y S req [0..<S] 0 0 = Inr (a, n)" for req
    using seq_loop_from[of 0 S y b req] assms
    by (cases "find (abandons_at b y S req) [0..<S]") (simp_all add: c0)
  show ?thesis
  proof (cases "jobs > 1")
    case False
    then show ?thesis using seq by (simp add: individual_train_acc_def)
  next
    case True
    obtain a n where "seq_loop b y S (py_int (la * of_nat S)) [0..<S] 0 0 = Inr (a, n)"
      using seq by blast
    then have "par_loop (map (train_predict b) [0..<S]) y S (py_int (la * of_nat S)) [0..<S] 0
               = Inr a"
      using loops_agree[of "[0..<S]" S b y "py_int (la * of_nat S)" 0 0]
      by (simp add: returned_def)
    then show ?thesis using True by (simp add: individual_train_acc_def)
  qed
qed

lemma retain_returns:
  assumes "search_inv s" and "accuracy b \<le> 1"
  shows "\<exists>s1. retain s b w = Inr s1"
proof (cases "int (num_classifiers s) < max_ensemble_size (this s)")
  case True
  then show ?thesis by (simp add: retain_warm_up)
next
  case False
  show ?thesis
  proof (cases "lowest_acc s < accuracy b")
    case True
    then show ?thesis using retain_replace[OF assms(1) False True assms(2)] by simp
  next
    case no: False
    then show ?thesis using retain_drop[OF False no] by simp
  qed
qed

lemma search_step_returns:
  assumes ok: "rng_ok E" and inv: "search_inv s" and grid: "possible_parameters s \<noteq> []"
    and n: "n_instances (this s) = length (cases X)" "length y = length (cases X)"
    and k: "0 < k" "k \<le> length (cases X)"
  shows "\<exists>s1. search_step E X y k s = Inr s1"
proof -
  obtain r g1 where rg: "randint E (rng_state s) (length (possible_parameters s)) = (r, g1)"
    by force
  have "fst (randint E (rng_state s) (length (possible_parameters s)))
          < length (possible_parameters s)"
    using ok grid unfolding rng_ok_def by blast
  then have "r < length (possible_parameters s)" by (simp add: rg)
  then obtain p rest where pp: "pop (possible_parameters s) r = Inr (p, rest)"
    by (simp add: pop_def)
  obtain sub g2 where ch: "choice E g1 (n_instances (this s)) k = (sub, g2)" by force
  have sub: "length sub = k" "\<forall>i \<in> set sub. i < length (cases X)"
    using ok ch k(2) n(1) unfolding rng_ok_def by (metis fst_conv)+
  obtain Xs where Xs: "take_rows (cases X) sub = Inr Xs"
    using sub(2) by (simp add: take_rows_def)
  obtain ys where ys: "take_rows y sub = Inr ys" and ly: "length ys = k"
    using sub n(2) by (simp add: take_rows_def)
  obtain tp pd where tr: "train E p (alphabet_size (this s)) (random_state (this s)) Xs ys = (tp, pd)"
    by force
  let ?b = "\<lparr>parameters = p, subsample = sub, accuracy = 0, train_predict = tp, predict = pd\<rparr>"
  let ?la = "if int (num_classifiers s) < max_ensemble_size (this s) then 0 else lowest_acc s"
  obtain a evals where acc: "individual_train_acc (n_jobs (this s)) ?b ys k ?la = Inr (a, evals)"
    using individual_train_acc_returns[OF k(1), of ys] ly by blast
  have a1: "a \<le> 1" using acc by (rule individual_train_acc_le_1)
  obtain s1 where rt: "retain (s\<lparr>possible_parameters := rest, rng_state := g2\<rparr>)
                         (?b\<lparr>accuracy := a\<rparr>) (weight_of a) = Inr s1"
    using retain_returns[of "s\<lparr>possible_parameters := rest, rng_state := g2\<rparr>" "?b\<lparr>accuracy := a\<rparr>"]
      inv a1 by auto
  show ?thesis using rg pp ch Xs ys tr acc rt
    by (simp add: search_step_def Let_def cong: if_cong)
qed

lemma search_loop_returns:
  assumes ok: "rng_ok E" and len: "length y = length (cases X)"
    and k: "0 < k" "k \<le> length (cases X)"
  shows "search_inv s \<Longrightarrow> n_instances (this s) = length (cases X) \<Longrightarrow>
         \<exists>s'. search_loop E X y tlim k s = Inr s'"
  using ok len k
proof (induction E X y tlim k s rule: search_loop.induct)
  case (1 E X y tlim k s)
  show ?case
  proof (cases "(train_time s < tlim \<or> int (num_classifiers s) < n_parameter_samples (this s))
          \<and> length (possible_parameters s) > 0")
    case False
    show ?thesis unfolding search_loop.simps[of E X y tlim k s] if_not_P[OF False] by simp
  next
    case True
    then have grid: "possible_parameters s \<noteq> []" by auto
    obtain s1 where s1: "search_step E X y k s = Inr s1"
      using search_step_returns[OF "1.prems"(3) "1.prems"(1) grid "1.prems"(2) "1.prems"(4-6)]
      by blast
    have i1: "search_inv s1" using search_step_inv[OF "1.prems"(1) s1] .
    have n1: "n_instances (this s1) = length (cases X)"
      using frame_fields(6)[OF search_step_frame[OF s1]] "1.prems"(2) by simp
    from "1.IH"[OF True s1 i1 n1 "1.prems"(3-6)] show ?thesis
      unfolding search_loop.simps[of E X y tlim k s] if_P[OF True] by (simp add: s1)
  qed
qed

lemma subsample_size_bounds:
  assumes "2 \<le> n"
  shows "0 < nat (py_int (of_nat n * (7 / 10)))" and "nat (py_int (of_nat n * (7 / 10))) \<le> n"
proof -
  define x :: rat where "x = of_nat n * (7 / 10)"
  have nn: "0 \<le> x" by (simp add: x_def)
  have f: "py_int x = \<lfloor>x\<rfloor>" using nn by (simp add: py_int_def)
  have "1 \<le> x" using assms by (simp add: x_def)
  then have lo: "1 \<le> \<lfloor>x\<rfloor>" by (simp add: le_floor_iff)
  have "x \<le> of_nat n" by (simp add: x_def)
  then have "\<lfloor>x\<rfloor> \<le> \<lfloor>(of_nat n :: rat)\<rfloor>" by (rule floor_mono)
  then have hi: "\<lfloor>x\<rfloor> \<le> int n" by simp
  have "0 < nat (py_int x)" using lo by (simp add: f)
  then show "0 < nat (py_int (of_nat n * (7 / 10)))" by (simp only: x_def)
  have "nat (py_int x) \<le> n" using hi lo by (simp add: f)
  then show "nat (py_int (of_nat n * (7 / 10))) \<le> n" by (simp only: x_def)
qed

text \<open>
  With a generator that keeps NumPy's contract, series of positive length, one label for
  each of at least two training instances, and a configuration that passes the check,
  \<^verbatim>\<open>_fit\<close> raises nothing: the theorems above that start from a completed fit are
  about every such run.
\<close>

lemma fit_returns:
  assumes "rng_ok E" and "0 < series_len X"
    and "min_window self \<le> py_int (of_nat (series_len X) * max_win_len_prop self) + 1"
    and "length y = length (cases X)" and "2 \<le> length (cases X)"
  shows "\<exists>st. fit E self X y = Inr st"
proof -
  let ?k = "nat (py_int (of_nat (length (cases X)) * (7 / 10)))"
  have "\<exists>time_limit s0. fit_setup E self X y = Inr (time_limit, ?k, s0)"
    using assms(2,3) by (simp add: fit_setup_def Let_def py_truediv_def)
  then obtain time_limit s0 where s0: "fit_setup E self X y = Inr (time_limit, ?k, s0)"
    by blast
  have inv: "search_inv s0" using s0 by (rule fit_setup_inv)
  have n: "n_instances (this s0) = length (cases X)" using fit_setup_classes(4)[OF s0] .
  note kb = subsample_size_bounds[OF assms(5)]
  obtain s where "search_loop E X y time_limit ?k s0 = Inr s"
    using search_loop_returns[OF assms(1,4) kb inv n, of time_limit] by blast
  then show ?thesis by (simp add: fit_def fit_search_def s0)
qed

lemma ex_env_rng_ok: "rng_ok ex_env"
  by (auto simp: rng_ok_def ex_env_def)

lemma fit_returns_example:
  "\<exists>st. fit ex_env (init n m 1 4 t j r) ex_panel ex_labels = Inr st"
  by (rule fit_returns[OF ex_env_rng_ok])
     (simp_all add: ex_panel_def ex_labels_def init_def py_int_def)


end
